theory Spec2Isabelle
  imports Complex_Main
begin

section \<open>Numbers and arithmetic\<close>

text \<open>
  The program is Python and its functions are untyped: \<open>generate_semidomain_elements\<close> and
  \<open>check_goldbach_analogue\<close> accept an \<open>int\<close>, a \<open>Fraction\<close> or a \<open>float\<close> as base, and the
  driver passes \<open>float(r)\<close>. Every finite value of these three types denotes a rational
  number, and Python compares, hashes and tests set membership across them by that exact
  value (\<open>1 == 1.0\<close>, \<open>4 in {4.0}\<close>). A number is therefore modelled by the rational it
  denotes, with the order and equality of \<open>rat\<close>.

  What differs between the types is the arithmetic: \<open>**\<close> and \<open>+\<close> are exact on \<open>int\<close> and
  \<open>Fraction\<close> and rounded on \<open>float\<close>, and the rounding of \<open>**\<close> is that of the platform's
  \<open>pow\<close>. The arithmetic is a parameter of the model.
  \<^item> \<open>pow_op\<close> is \<open>**\<close> with a non-negative integer exponent. On a float whose power is
    beyond the double range \<open>**\<close> raises \<open>OverflowError\<close>: there \<open>pow_op\<close> is \<open>None\<close>. On
    \<open>int\<close> and \<open>Fraction\<close> it never raises.
  \<^item> \<open>add_op\<close> is \<open>+\<close>. It never raises. A float sum beyond the double range is \<open>inf\<close>,
    which is equal to no integer. \<open>inf\<close> is not a number of the model: an arithmetic
    that stands for \<open>float\<close> has in its place a rational that is not an integer.
  \<^item> \<open>float_of\<close> is the conversion \<open>float(_)\<close> of an exact rational. The driver converts
    fractions between 0 and 1 only, on which \<open>float\<close> does not raise.
\<close>

datatype error = ZeroDivisionError | OverflowError

record arith =
  pow_op :: "rat \<Rightarrow> nat \<Rightarrow> rat option"
  add_op :: "rat \<Rightarrow> rat \<Rightarrow> rat"
  float_of :: "rat \<Rightarrow> rat"

text \<open>
  The arithmetic of \<open>int\<close> and \<open>Fraction\<close> operands. Its \<open>float_of\<close> is the identity: a
  conversion that never rounds.
\<close>

definition exact :: arith where
  "exact = \<lparr>pow_op = (\<lambda>x k. Some (x ^ k)), add_op = (\<lambda>a b. a + b), float_of = (\<lambda>q. q)\<rparr>"

text \<open>
  An arithmetic with the range of a double and no rounding: a power raises
  \<open>OverflowError\<close> when its magnitude is above the largest double,
  \<open>(2 ^ 53 - 1) * 2 ^ 971\<close>, and is exact otherwise. It shows the error path of the
  generator on a large float base.
\<close>

definition double_max :: rat where
  "double_max = (2 ^ 53 - 1) * 2 ^ 971"

definition double_range :: arith where
  "double_range =
     \<lparr>pow_op = (\<lambda>x k. if \<bar>x ^ k\<bar> > double_max then None else Some (x ^ k)),
      add_op = (\<lambda>a b. a + b), float_of = (\<lambda>q. q)\<rparr>"

text \<open>
  Python's \<open>range(start, stop, step)\<close> for a positive step: the values
  \<open>start, start + step, ...\<close> below \<open>stop\<close>.
\<close>

definition py_range :: "int \<Rightarrow> int \<Rightarrow> int \<Rightarrow> int list" where
  "py_range start stop step =
     map (\<lambda>i. start + step * int i) [0..<nat ((stop - start + step - 1) div step)]"

section \<open>Semidomain element generator\<close>

text \<open>
  The loop of \<open>generate_semidomain_elements\<close> over the exponents still to visit, with the
  set \<open>elements\<close> built so far. An \<open>OverflowError\<close> of \<open>r ** k\<close> leaves the function with
  the error; the \<open>break\<close> leaves the loop with the set as it is.
\<close>

fun generate_loop ::
  "arith \<Rightarrow> rat \<Rightarrow> rat \<Rightarrow> nat list \<Rightarrow> rat set \<Rightarrow> error + rat set" where
  "generate_loop A r max_value [] elements = Inr elements"
| "generate_loop A r max_value (k # ks) elements =
     (case pow_op A r k of
        None \<Rightarrow> Inl OverflowError
      | Some element \<Rightarrow>
          if element > max_value then Inr elements
          else generate_loop A r max_value ks (insert element elements))"

text \<open>
  \<open>range(max_power)\<close> is \<open>0, ..., max_power - 1\<close>, empty for \<open>max_power \<le> 0\<close>;
  \<open>sorted(elements)\<close> lists the set in ascending order.
\<close>

definition generate_semidomain_elements ::
  "arith \<Rightarrow> rat \<Rightarrow> rat \<Rightarrow> int \<Rightarrow> error + rat list" where
  "generate_semidomain_elements A r max_value max_power =
     (case generate_loop A r max_value [0..<nat max_power] {} of
        Inl e \<Rightarrow> Inl e
      | Inr elements \<Rightarrow> Inr (sorted_list_of_set elements))"

section \<open>Coverage checker\<close>

text \<open>
  The loop over the even numbers, returning \<open>False\<close> at the first one that is not a sum.
  The source's set \<open>sums\<close> is named \<open>sum_set\<close> here.
\<close>

fun coverage_loop :: "rat set \<Rightarrow> int list \<Rightarrow> bool" where
  "coverage_loop sum_set [] = True"
| "coverage_loop sum_set (even_num # rest) =
     (if of_int even_num \<notin> sum_set then False else coverage_loop sum_set rest)"

text \<open>
  \<open>check_goldbach_analogue\<close> calls the generator with the default \<open>max_power = 20\<close>;
  \<open>max_value\<close> is an \<open>int\<close>, as \<open>range\<close> requires. An error of the generator is not
  caught.
\<close>

definition check_goldbach_analogue :: "arith \<Rightarrow> rat \<Rightarrow> int \<Rightarrow> error + bool" where
  "check_goldbach_analogue A r max_value =
     (case generate_semidomain_elements A r (of_int max_value) 20 of
        Inl e \<Rightarrow> Inl e
      | Inr elements \<Rightarrow>
          let sum_set = set (map (\<lambda>(a, b). add_op A a b) (List.product elements elements))
          in Inr (coverage_loop sum_set (py_range 4 (max_value + 1) 2)))"

section \<open>Rational enumeration driver\<close>

text \<open>
  \<open>fractions.Fraction(numerator, denominator)\<close> on two integers: it raises
  \<open>ZeroDivisionError\<close> on a zero denominator and otherwise stores the pair divided by its
  greatest common divisor, with the sign on the numerator.
\<close>

record fraction =
  numerator :: int
  denominator :: int

definition Fraction :: "int \<Rightarrow> int \<Rightarrow> error + fraction" where
  "Fraction n d =
     (if d = 0 then Inl ZeroDivisionError
      else let g = (if d < 0 then - gcd n d else gcd n d)
           in Inr \<lparr>numerator = n div g, denominator = d div g\<rparr>)"

text \<open>The rational a \<open>Fraction\<close> denotes; \<open>float(r)\<close> is \<open>float_of\<close> of it.\<close>

definition value_of :: "fraction \<Rightarrow> rat" where
  "value_of r = of_int (numerator r) / of_int (denominator r)"

text \<open>
  The driver's variables: the result list, the counter, and the candidates announced by
  the progress message \<open>Checking r = ... (numerator/denominator)\<close>, in the order of the
  announcements.
\<close>

record search_state =
  valid_rationals :: "fraction list"
  total_checked :: int
  checking_log :: "(int \<times> int) list"

text \<open>
  The body of the inner loop, for one numerator \<open>n\<close> and denominator \<open>d\<close>. The driver
  catches nothing: an error of \<open>Fraction\<close> or of the checker ends the run.
\<close>

definition check_candidate ::
  "arith \<Rightarrow> int \<Rightarrow> int \<Rightarrow> int \<Rightarrow> search_state \<Rightarrow> error + search_state" where
  "check_candidate A max_value d n st =
     (case Fraction n d of
        Inl e \<Rightarrow> Inl e
      | Inr r \<Rightarrow>
          let st1 = st\<lparr>total_checked := total_checked st + 1,
                       checking_log := checking_log st @ [(n, d)]\<rparr>
          in case check_goldbach_analogue A (float_of A (value_of r)) max_value of
               Inl e \<Rightarrow> Inl e
             | Inr ok \<Rightarrow>
                 if ok then Inr (st1\<lparr>valid_rationals := valid_rationals st1 @ [r]\<rparr>)
                 else Inr st1)"

fun numerator_loop ::
  "arith \<Rightarrow> int \<Rightarrow> int \<Rightarrow> int list \<Rightarrow> search_state \<Rightarrow> error + search_state" where
  "numerator_loop A max_value d [] st = Inr st"
| "numerator_loop A max_value d (n # ns) st =
     (case check_candidate A max_value d n st of
        Inl e \<Rightarrow> Inl e
      | Inr st' \<Rightarrow> numerator_loop A max_value d ns st')"

fun denominator_loop ::
  "arith \<Rightarrow> int \<Rightarrow> int list \<Rightarrow> search_state \<Rightarrow> error + search_state" where
  "denominator_loop A max_value [] st = Inr st"
| "denominator_loop A max_value (d # ds) st =
     (case numerator_loop A max_value d [1..d] st of
        Inl e \<Rightarrow> Inl e
      | Inr st' \<Rightarrow> denominator_loop A max_value ds st')"

text \<open>
  The two nested loops of \<open>find_rational_satisfying_goldbach\<close>, run from the initial
  variables to the state in which the function returns.
\<close>

definition search_run :: "arith \<Rightarrow> int \<Rightarrow> int \<Rightarrow> int \<Rightarrow> error + search_state" where
  "search_run A max_value max_denominator min_denominator =
     denominator_loop A max_value [min_denominator..max_denominator]
       \<lparr>valid_rationals = [], total_checked = 0, checking_log = []\<rparr>"

definition find_rational_satisfying_goldbach ::
  "arith \<Rightarrow> int \<Rightarrow> int \<Rightarrow> int \<Rightarrow> error + fraction list" where
  "find_rational_satisfying_goldbach A max_value max_denominator min_denominator =
     (case search_run A max_value max_denominator min_denominator of
        Inl e \<Rightarrow> Inl e
      | Inr st \<Rightarrow> Inr (valid_rationals st))"

text \<open>
  The driver's bases are floats of fractions in \<open>(0, 1]\<close>. An arithmetic is safe on the
  unit interval when the float of such a fraction is between 0 and 1 and no power of a
  base between 0 and 1 raises. The arithmetic of \<open>int\<close> and \<open>Fraction\<close> is, and so is that
  of \<open>float\<close>: a quotient \<open>n/d\<close> with \<open>1 \<le> n \<le> d\<close> rounds to a float between 0 and 1,
  and a power of such a float is at most 1 in magnitude, far from the double range.
\<close>

definition unit_interval_safe :: "arith \<Rightarrow> bool" where
  "unit_interval_safe A =
     ((\<forall>q. 0 < q \<and> q \<le> 1 \<longrightarrow> 0 \<le> float_of A q \<and> float_of A q \<le> 1) \<and>
      (\<forall>x k. 0 \<le> x \<and> x \<le> 1 \<longrightarrow> pow_op A x k \<noteq> None))"

section \<open>The enumeration as the specification describes it\<close>

text \<open>
  The specification describes the driver by its grid: for each denominator \<open>d\<close> from
  \<open>min_denominator\<close> to \<open>max_denominator\<close>, for each numerator \<open>n\<close> from 1 to \<open>d\<close>, the
  candidate \<open>n/d\<close>. \<open>enumeration_grid\<close> follows those words and is not taken from the
  source; the loops above are compared with it. Two abbreviations state what the loops do
  with a pair of the grid: \<open>passes\<close> says that the call the driver makes to the checker, on
  the float of \<open>n/d\<close>, returns true, and \<open>lowest_terms\<close> is the pair that \<open>Fraction\<close> stores
  when the denominator is positive.
\<close>

definition enumeration_grid :: "int \<Rightarrow> int \<Rightarrow> (int \<times> int) list" where
  "enumeration_grid min_denominator max_denominator =
     concat (map (\<lambda>d. map (\<lambda>n. (n, d)) [1..d]) [min_denominator..max_denominator])"

definition passes :: "arith \<Rightarrow> int \<Rightarrow> int \<times> int \<Rightarrow> bool" where
  "passes A max_value = (\<lambda>(n, d).
     check_goldbach_analogue A (float_of A (of_int n / of_int d)) max_value = Inr True)"

definition lowest_terms :: "int \<times> int \<Rightarrow> fraction" where
  "lowest_terms = (\<lambda>(n, d). \<lparr>numerator = n div gcd n d, denominator = d div gcd n d\<rparr>)"

section \<open>The generator's loop\<close>

lemma generate_loop_finite:
  "generate_loop A r max_value ks elements = Inr result \<Longrightarrow> finite elements \<Longrightarrow>
   finite result"
  by (induction ks arbitrary: elements) (auto split: option.splits if_splits)

text \<open>
  Whatever the loop adds is a power of the base at one of the visited exponents and has
  passed the test against \<open>max_value\<close>.
\<close>

lemma generate_loop_members:
  "generate_loop A r max_value ks elements = Inr result \<Longrightarrow> x \<in> result \<Longrightarrow>
   x \<in> elements \<or> (x \<le> max_value \<and> (\<exists>k\<in>set ks. pow_op A r k = Some x))"
proof (induction ks arbitrary: elements)
  case Nil
  then show ?case by simp
next
  case (Cons k ks)
  from Cons.prems(1) obtain element where p: "pow_op A r k = Some element"
    by (auto split: option.splits)
  show ?case
  proof (cases "element > max_value")
    case True
    with Cons.prems p show ?thesis by simp
  next
    case False
    with Cons.prems(1) p
    have "generate_loop A r max_value ks (insert element elements) = Inr result"
      by simp
    from Cons.IH [OF this Cons.prems(2)] False p show ?thesis by auto
  qed
qed

lemma generate_loop_error:
  "generate_loop A r max_value ks elements = Inl e \<Longrightarrow> e = OverflowError"
  by (induction ks arbitrary: elements) (auto split: option.splits if_splits)

text \<open>
  The loop returns when no power it computes raises: the first does not, and a power
  that stays within the ceiling, after which the loop goes on, is followed by one that
  does not.
\<close>

lemma generate_loop_returns:
  assumes step: "\<And>k e. pow_op A r k = Some e \<Longrightarrow> e \<le> max_value \<Longrightarrow>
                   pow_op A r (Suc k) \<noteq> None"
  shows "(i < n \<longrightarrow> pow_op A r i \<noteq> None) \<Longrightarrow>
         \<exists>result. generate_loop A r max_value [i..<n] elements = Inr result"
proof (induction "n - i" arbitrary: i elements)
  case 0
  then show ?case by simp
next
  case (Suc m)
  then have i: "i < n" by simp
  with Suc.prems obtain e where e: "pow_op A r i = Some e" by auto
  from i have l: "[i..<n] = i # [Suc i..<n]" by (simp add: upt_conv_Cons)
  show ?case
  proof (cases "e > max_value")
    case True
    with e l show ?thesis by simp
  next
    case False
    with step [OF e] have "pow_op A r (Suc i) \<noteq> None" by simp
    moreover from Suc.hyps(2) have "m = n - Suc i" by simp
    ultimately obtain result where
      "generate_loop A r max_value [Suc i..<n] (insert e elements) = Inr result"
      using Suc.hyps(1) by blast
    with e l False show ?thesis by simp
  qed
qed

lemma generate_Inr:
  "generate_semidomain_elements A r max_value max_power = Inr xs \<Longrightarrow>
   \<exists>result. generate_loop A r max_value [0..<nat max_power] {} = Inr result \<and>
     finite result \<and> xs = sorted_list_of_set result \<and> set xs = result"
  by (auto simp: generate_semidomain_elements_def split: sum.splits
      dest: generate_loop_finite)

lemma generate_error:
  "generate_semidomain_elements A r max_value max_power = Inl e \<Longrightarrow> e = OverflowError"
  by (auto simp: generate_semidomain_elements_def split: sum.splits
      dest: generate_loop_error)

lemma generate_returns:
  assumes "pow_op A r 0 \<noteq> None"
    and "\<And>k e. pow_op A r k = Some e \<Longrightarrow> e \<le> max_value \<Longrightarrow> pow_op A r (Suc k) \<noteq> None"
  shows "\<exists>xs. generate_semidomain_elements A r max_value max_power = Inr xs"
proof -
  have "\<exists>result. generate_loop A r max_value [0..<nat max_power] {} = Inr result"
  proof (rule generate_loop_returns)
    fix k e assume "pow_op A r k = Some e" "e \<le> max_value"
    then show "pow_op A r (Suc k) \<noteq> None" by (rule assms(2))
  next
    from assms(1) show "0 < nat max_power \<longrightarrow> pow_op A r 0 \<noteq> None" by simp
  qed
  then show ?thesis by (auto simp: generate_semidomain_elements_def)
qed

text \<open>
  With an arithmetic that never raises, the \<open>break\<close> makes the loop a prefix scan, not a
  filter.
\<close>

lemma generate_loop_total_takeWhile:
  assumes "\<And>k. pow_op A r k = Some (f k)"
  shows "generate_loop A r max_value ks elements =
   Inr (elements \<union> set (takeWhile (\<lambda>x. \<not> x > max_value) (map f ks)))"
  by (induction ks arbitrary: elements) (auto simp: assms)

text \<open>
  The error path: \<open>generate(1e200, 1e300)\<close> keeps \<open>1\<close> and \<open>1e200\<close> and raises at \<open>k = 2\<close>,
  where the power is beyond the double range.
\<close>

lemma generate_overflow_at_two:
  assumes "pow_op A r 0 = Some e0" "\<not> e0 > max_value"
    and "pow_op A r 1 = Some e1" "\<not> e1 > max_value"
    and "pow_op A r 2 = None"
  shows "generate_semidomain_elements A r max_value 20 = Inl OverflowError"
proof -
  have l: "[0..<nat 20] = 0 # 1 # 2 # [3..<20]"
    by (simp add: upt_conv_Cons)
  show ?thesis
    unfolding generate_semidomain_elements_def l
    using assms by simp
qed

lemma generate_overflow_example:
  "generate_semidomain_elements double_range (10 ^ 200) (10 ^ 300) 20 = Inl OverflowError"
proof (rule generate_overflow_at_two)
  show "pow_op double_range (10 ^ 200) 0 = Some 1"
    by (simp add: double_range_def double_max_def)
  show "pow_op double_range (10 ^ 200) 1 = Some (10 ^ 200)"
    by (simp add: double_range_def double_max_def)
  show "pow_op double_range (10 ^ 200) 2 = None"
    by (simp add: double_range_def double_max_def)
  show "\<not> (1 :: rat) > 10 ^ 300" by simp
  show "\<not> (10 ^ 200 :: rat) > 10 ^ 300" by simp
qed



lemma first_ten_powers:
  "map (\<lambda>k. (2::rat) ^ k) [0..<10] = [1, 2, 4, 8, 16, 32, 64, 128, 256, 512]"
  by code_simp

lemma generate_two_cap:
  assumes "10 \<le> max_power"
  shows "generate_loop exact 2 1000 [0..<nat max_power] {} =
         Inr {1, 2, 4, 8, 16, 32, 64, 128, 256, 512}"
proof -
  from assms have "10 \<le> nat max_power" by simp
  then obtain m where m: "nat max_power = 10 + m"
    using le_Suc_ex by blast
  have split: "[0..<10 + m] = [0..<10] @ [10..<10 + m]"
    by (simp only: upt_add_eq_append [OF le0])
  have stop: "takeWhile (\<lambda>x. \<not> x > 1000) (map (\<lambda>k. (2::rat) ^ k) [10..<10 + m]) = []"
  proof (cases m)
    case 0
    then show ?thesis by simp
  next
    case (Suc m')
    then have "[10..<10 + m] = 10 # [11..<10 + m]"
      by (simp add: upt_conv_Cons)
    then show ?thesis by simp
  qed
  have "takeWhile (\<lambda>x. \<not> x > 1000) (map (\<lambda>k. (2::rat) ^ k) [0..<10 + m]) =
        [1, 2, 4, 8, 16, 32, 64, 128, 256, 512]"
    unfolding split map_append first_ten_powers
    using stop by (simp add: takeWhile_append2)
  moreover have "\<And>k. pow_op exact 2 k = Some (2 ^ k)" by (simp add: exact_def)
  ultimately show ?thesis
    unfolding m by (simp add: generate_loop_total_takeWhile [where f = "\<lambda>k. 2 ^ k"])
qed

text \<open>
  Claim C7. \<open>generate(2, 1000)\<close>, with the default \<open>max_power = 20\<close> and the exact
  arithmetic of \<open>int\<close>, returns exactly \<open>[1, 2, 4, 8, 16, 32, 64, 128, 256, 512]\<close>. The
  power at \<open>k = 10\<close> is \<open>1024\<close>, the first above \<open>1000\<close>; it stops the loop and is not in the
  result. The cap does not bind: every \<open>max_power\<close> of at least \<open>10\<close> gives the same list.
\<close>

theorem generate_two_1000:
  "generate_semidomain_elements exact 2 1000 20 =
      Inr [1, 2, 4, 8, 16, 32, 64, 128, 256, 512] \<and>
   pow_op exact 2 10 = Some 1024 \<and>
   (\<forall>max_power\<ge>10. generate_semidomain_elements exact 2 1000 max_power =
      generate_semidomain_elements exact 2 1000 20)"
proof (intro conjI allI impI)
  show "generate_semidomain_elements exact 2 1000 20 =
      Inr [1, 2, 4, 8, 16, 32, 64, 128, 256, 512]"
    by code_simp
  show "pow_op exact 2 10 = Some 1024" by (simp add: exact_def)
next
  fix max_power :: int assume "10 \<le> max_power"
  then show "generate_semidomain_elements exact 2 1000 max_power =
      generate_semidomain_elements exact 2 1000 20"
    by (simp only: generate_semidomain_elements_def generate_two_cap)
qed

theorem generate_two_1000_witness:
  "(10::int) \<le> 12 \<and>
   generate_semidomain_elements exact 2 1000 12 =
     Inr [1, 2, 4, 8, 16, 32, 64, 128, 256, 512]"
  using generate_two_1000 by simp



section \<open>The checker's loop\<close>

lemma coverage_loop_iff:
  "coverage_loop sum_set es = (\<forall>e\<in>set es. of_int e \<in> sum_set)"
  by (induction es) auto


text \<open>
  \<open>range(4, max_value + 1, 2)\<close> lists the even integers from 4 to \<open>max_value\<close>.
\<close>

lemma set_py_range_evens:
  "set (py_range 4 (max_value + 1) 2) = {e. 4 \<le> e \<and> e \<le> max_value \<and> even e}"
proof (intro set_eqI iffI)
  fix e assume "e \<in> set (py_range 4 (max_value + 1) 2)"
  then obtain i where i: "i < nat ((max_value - 2) div 2)" and e: "e = 4 + 2 * int i"
    by (auto simp: py_range_def)
  from i have "int i < (max_value - 2) div 2" by linarith
  then have "2 * int i + 2 \<le> max_value - 2" by linarith
  with e show "e \<in> {e. 4 \<le> e \<and> e \<le> max_value \<and> even e}" by simp
next
  fix e assume "e \<in> {e. 4 \<le> e \<and> e \<le> max_value \<and> even e}"
  then have e: "4 \<le> e" "e \<le> max_value" "even e" by simp_all
  from e(3) obtain k where k: "e = 2 * k" by (elim evenE)
  define i where "i = nat (k - 2)"
  from e(1) k have ei: "e = 4 + 2 * int i" unfolding i_def by simp
  from e ei have "int i < (max_value - 2) div 2" by linarith
  then have "i < nat ((max_value - 2) div 2)" by linarith
  with ei show "e \<in> set (py_range 4 (max_value + 1) 2)"
    by (auto simp: py_range_def)
qed

lemma py_range_empty:
  "max_value < 4 \<Longrightarrow> py_range 4 (max_value + 1) 2 = []"
proof -
  assume "max_value < 4"
  then have "(max_value + 1 - 4 + 2 - 1) div 2 \<le> 0" by linarith
  then show ?thesis by (simp add: py_range_def)
qed

lemma sums_set_eq:
  "set (map (\<lambda>(a, b). add_op A a b) (List.product xs xs)) =
   {add_op A a b | a b. a \<in> set xs \<and> b \<in> set xs}"
  by (auto simp: image_iff)

lemma check_Inr:
  assumes "generate_semidomain_elements A r (of_int max_value) 20 = Inr elements"
  shows "check_goldbach_analogue A r max_value =
   Inr (\<forall>e. even e \<and> 4 \<le> e \<and> e \<le> max_value \<longrightarrow>
     of_int e \<in> {add_op A a b | a b. a \<in> set elements \<and> b \<in> set elements})"
proof -
  have "check_goldbach_analogue A r max_value =
    Inr (\<forall>e\<in>{e. 4 \<le> e \<and> e \<le> max_value \<and> even e}.
       of_int e \<in> {add_op A a b | a b. a \<in> set elements \<and> b \<in> set elements})"
    by (simp only: check_goldbach_analogue_def assms sum.case Let_def coverage_loop_iff
        set_py_range_evens sums_set_eq)
  also have "(\<forall>e\<in>{e. 4 \<le> e \<and> e \<le> max_value \<and> even e}.
       of_int e \<in> {add_op A a b | a b. a \<in> set elements \<and> b \<in> set elements}) =
     (\<forall>e. even e \<and> 4 \<le> e \<and> e \<le> max_value \<longrightarrow>
     of_int e \<in> {add_op A a b | a b. a \<in> set elements \<and> b \<in> set elements})"
    by blast
  finally show ?thesis .
qed

lemma check_Inl:
  "generate_semidomain_elements A r (of_int max_value) 20 = Inl err \<Longrightarrow>
   check_goldbach_analogue A r max_value = Inl err"
  by (simp add: check_goldbach_analogue_def)

text \<open>The error path of the checker: \<open>check(1e200, 10 ** 300)\<close> raises as its generator does.\<close>

lemma check_overflow_example:
  "check_goldbach_analogue double_range (10 ^ 200) (10 ^ 300) = Inl OverflowError"
proof (rule check_Inl)
  show "generate_semidomain_elements double_range (10 ^ 200) (of_int (10 ^ 300)) 20 =
      Inl OverflowError"
    by (simp only: of_int_power of_int_numeral generate_overflow_example)
qed

lemma check_error:
  "check_goldbach_analogue A r max_value = Inl err \<Longrightarrow> err = OverflowError"
  by (auto simp: check_goldbach_analogue_def Let_def split: sum.splits dest: generate_error)

lemma check_returns:
  assumes "pow_op A r 0 \<noteq> None"
    and "\<And>k e. pow_op A r k = Some e \<Longrightarrow> e \<le> of_int max_value \<Longrightarrow>
           pow_op A r (Suc k) \<noteq> None"
  shows "\<exists>verdict. check_goldbach_analogue A r max_value = Inr verdict"
proof -
  from generate_returns [of A r "of_int max_value" 20, OF assms(1)] assms(2)
  obtain xs where "generate_semidomain_elements A r (of_int max_value) 20 = Inr xs"
    by blast
  from check_Inr [OF this] show ?thesis by blast
qed




text \<open>
  Claim C8. \<open>check_goldbach_analogue(1, 1000)\<close> is false: with base \<open>1\<close> the generator
  returns the single element \<open>1\<close>, the only pairwise sum is \<open>2\<close>, and \<open>4\<close> is not covered.
\<close>

theorem check_one_1000:
  "generate_semidomain_elements exact 1 1000 20 = Inr [1] \<and>
   {add_op exact a b | a b. a \<in> set [1::rat] \<and> b \<in> set [1::rat]} = {2} \<and>
   check_goldbach_analogue exact 1 1000 = Inr False"
proof -
  have g: "generate_semidomain_elements exact 1 (of_int 1000) 20 = Inr [1]"
    by code_simp
  have one_sums: "{add_op exact a b | a b. a \<in> set [1::rat] \<and> b \<in> set [1::rat]} = {2}"
    by (auto simp: exact_def)
  have "\<not> (\<forall>e::int. even e \<and> 4 \<le> e \<and> e \<le> 1000 \<longrightarrow> (of_int e :: rat) \<in> {2})"
  proof
    assume "\<forall>e::int. even e \<and> 4 \<le> e \<and> e \<le> 1000 \<longrightarrow> (of_int e :: rat) \<in> {2}"
    then have "even (4::int) \<and> (4::int) \<le> 4 \<and> (4::int) \<le> 1000 \<longrightarrow>
        (of_int (4::int) :: rat) \<in> {2}"
      by (rule spec)
    then show False by simp
  qed
  then have "check_goldbach_analogue exact 1 1000 = Inr False"
    by (simp only: check_Inr [OF g] one_sums)
  with g one_sums show ?thesis by simp
qed



section \<open>The driver's loops\<close>

text \<open>
  The driver only builds fractions with a positive denominator, so \<open>Fraction\<close> never
  raises there, and the float it passes to the checker is that of \<open>n/d\<close>.
\<close>

lemma Fraction_pos:
  "0 < d \<Longrightarrow> Fraction n d = Inr (lowest_terms (n, d))"
  by (simp add: Fraction_def lowest_terms_def Let_def)

lemma value_of_lowest_terms:
  assumes "0 < d"
  shows "value_of (lowest_terms (n, d)) = of_int n / of_int d"
proof -
  define g where "g = gcd n d"
  from assms have g0: "g \<noteq> 0" by (simp add: g_def)
  have "g dvd n" "g dvd d" by (simp_all add: g_def)
  then obtain n' d' where n: "n = g * n'" and d: "d = g * d'"
    unfolding dvd_def by blast
  from g0 have "n div g = n'" "d div g = d'" by (simp_all add: n d)
  then have "value_of (lowest_terms (n, d)) = of_int n' / of_int d'"
    by (simp add: value_of_def lowest_terms_def g_def [symmetric])
  also from g0 have "\<dots> = (of_int n :: rat) / of_int d"
    by (simp add: n d)
  finally show ?thesis .
qed

lemma check_candidate_pos:
  assumes "0 < d"
    and "check_goldbach_analogue A (float_of A (of_int n / of_int d)) max_value = Inr verdict"
  shows "check_candidate A max_value d n st =
    Inr (st\<lparr>valid_rationals :=
              valid_rationals st @ map lowest_terms (filter (passes A max_value) [(n, d)]),
            total_checked := total_checked st + 1,
            checking_log := checking_log st @ [(n, d)]\<rparr>)"
  using assms
  by (simp add: check_candidate_def Fraction_pos value_of_lowest_terms passes_def Let_def)

lemma numerator_loop_eq:
  assumes "0 < d"
    and "\<And>n. n \<in> set ns \<Longrightarrow>
      \<exists>verdict. check_goldbach_analogue A (float_of A (of_int n / of_int d)) max_value =
        Inr verdict"
  shows "numerator_loop A max_value d ns st =
    Inr (st\<lparr>valid_rationals :=
              valid_rationals st @
              map lowest_terms (filter (passes A max_value) (map (\<lambda>n. (n, d)) ns)),
            total_checked := total_checked st + int (length ns),
            checking_log := checking_log st @ map (\<lambda>n. (n, d)) ns\<rparr>)"
  using assms(2)
proof (induction ns arbitrary: st)
  case Nil
  show ?case by simp
next
  case (Cons n ns)
  from Cons.prems [of n] obtain verdict where
    v: "check_goldbach_analogue A (float_of A (of_int n / of_int d)) max_value = Inr verdict"
    by auto
  have rest: "\<And>m. m \<in> set ns \<Longrightarrow>
      \<exists>verdict. check_goldbach_analogue A (float_of A (of_int m / of_int d)) max_value =
        Inr verdict"
    using Cons.prems by simp
  show ?case
    by (simp add: check_candidate_pos [OF assms(1) v] Cons.IH [OF rest])
qed

lemma numerator_loop_range:
  assumes "\<And>n. n \<in> set [1..d] \<Longrightarrow>
      \<exists>verdict. check_goldbach_analogue A (float_of A (of_int n / of_int d)) max_value =
        Inr verdict"
  shows "numerator_loop A max_value d [1..d] st =
    Inr (st\<lparr>valid_rationals :=
              valid_rationals st @
              map lowest_terms (filter (passes A max_value) (map (\<lambda>n. (n, d)) [1..d])),
            total_checked := total_checked st + int (length [1..d]),
            checking_log := checking_log st @ map (\<lambda>n. (n, d)) [1..d]\<rparr>)"
proof (cases "0 < d")
  case True
  from numerator_loop_eq [OF True assms] show ?thesis .
next
  case False
  then have "[1..d] = []" by simp
  then show ?thesis by simp
qed

lemma denominator_loop_eq:
  assumes "\<And>n d. d \<in> set ds \<Longrightarrow> n \<in> set [1..d] \<Longrightarrow>
      \<exists>verdict. check_goldbach_analogue A (float_of A (of_int n / of_int d)) max_value =
        Inr verdict"
  shows "denominator_loop A max_value ds st =
    Inr (st\<lparr>valid_rationals :=
              valid_rationals st @
              map lowest_terms (filter (passes A max_value)
                (concat (map (\<lambda>d. map (\<lambda>n. (n, d)) [1..d]) ds))),
            total_checked := total_checked st +
              int (length (concat (map (\<lambda>d. map (\<lambda>n. (n, d)) [1..d]) ds))),
            checking_log := checking_log st @
              concat (map (\<lambda>d. map (\<lambda>n. (n, d)) [1..d]) ds)\<rparr>)"
  using assms
proof (induction ds arbitrary: st)
  case Nil
  show ?case by simp
next
  case (Cons d ds)
  have inner: "\<And>n. n \<in> set [1..d] \<Longrightarrow>
      \<exists>verdict. check_goldbach_analogue A (float_of A (of_int n / of_int d)) max_value =
        Inr verdict"
    using Cons.prems by simp
  have rest: "\<And>n d'. d' \<in> set ds \<Longrightarrow> n \<in> set [1..d'] \<Longrightarrow>
      \<exists>verdict. check_goldbach_analogue A (float_of A (of_int n / of_int d')) max_value =
        Inr verdict"
    using Cons.prems by simp
  define st1 where "st1 = st\<lparr>valid_rationals :=
              valid_rationals st @
              map lowest_terms (filter (passes A max_value) (map (\<lambda>n. (n, d)) [1..d])),
            total_checked := total_checked st + int (length [1..d]),
            checking_log := checking_log st @ map (\<lambda>n. (n, d)) [1..d]\<rparr>"
  have "numerator_loop A max_value d [1..d] st = Inr st1"
    unfolding st1_def by (rule numerator_loop_range [OF inner])
  then have "denominator_loop A max_value (d # ds) st = denominator_loop A max_value ds st1"
    by simp
  also have "\<dots> = Inr (st1\<lparr>valid_rationals :=
              valid_rationals st1 @
              map lowest_terms (filter (passes A max_value)
                (concat (map (\<lambda>d. map (\<lambda>n. (n, d)) [1..d]) ds))),
            total_checked := total_checked st1 +
              int (length (concat (map (\<lambda>d. map (\<lambda>n. (n, d)) [1..d]) ds))),
            checking_log := checking_log st1 @
              concat (map (\<lambda>d. map (\<lambda>n. (n, d)) [1..d]) ds)\<rparr>)"
    by (rule Cons.IH [OF rest])
  also have "\<dots> = Inr (st\<lparr>valid_rationals :=
              valid_rationals st @
              map lowest_terms (filter (passes A max_value)
                (concat (map (\<lambda>d. map (\<lambda>n. (n, d)) [1..d]) (d # ds)))),
            total_checked := total_checked st +
              int (length (concat (map (\<lambda>d. map (\<lambda>n. (n, d)) [1..d]) (d # ds)))),
            checking_log := checking_log st @
              concat (map (\<lambda>d. map (\<lambda>n. (n, d)) [1..d]) (d # ds))\<rparr>)"
    by (simp add: st1_def)
  finally show ?case .
qed

lemma enumeration_grid_members:
  "(n, d) \<in> set (enumeration_grid min_denominator max_denominator) \<longleftrightarrow>
   1 \<le> n \<and> n \<le> d \<and> min_denominator \<le> d \<and> d \<le> max_denominator"
  by (force simp: enumeration_grid_def)

text \<open>
  When the checker returns on every candidate of the grid, the two loops announce the
  grid in its order, count it, and keep the fractions of the candidates that pass, in
  that order.
\<close>

lemma search_run_eq:
  assumes "\<And>n d. (n, d) \<in> set (enumeration_grid min_denominator max_denominator) \<Longrightarrow>
      \<exists>verdict. check_goldbach_analogue A (float_of A (of_int n / of_int d)) max_value =
        Inr verdict"
  shows "search_run A max_value max_denominator min_denominator =
    Inr \<lparr>valid_rationals = map lowest_terms (filter (passes A max_value)
            (enumeration_grid min_denominator max_denominator)),
         total_checked = int (length (enumeration_grid min_denominator max_denominator)),
         checking_log = enumeration_grid min_denominator max_denominator\<rparr>"
proof -
  have "denominator_loop A max_value [min_denominator..max_denominator]
       \<lparr>valid_rationals = [], total_checked = 0, checking_log = []\<rparr> =
    Inr (\<lparr>valid_rationals = [], total_checked = 0, checking_log = []\<rparr>
          \<lparr>valid_rationals :=
              valid_rationals \<lparr>valid_rationals = [], total_checked = 0, checking_log = []\<rparr> @
              map lowest_terms (filter (passes A max_value)
                (concat (map (\<lambda>d. map (\<lambda>n. (n, d)) [1..d])
                   [min_denominator..max_denominator]))),
            total_checked :=
              total_checked \<lparr>valid_rationals = [], total_checked = 0, checking_log = []\<rparr> +
              int (length (concat (map (\<lambda>d. map (\<lambda>n. (n, d)) [1..d])
                   [min_denominator..max_denominator]))),
            checking_log :=
              checking_log \<lparr>valid_rationals = [], total_checked = 0, checking_log = []\<rparr> @
              concat (map (\<lambda>d. map (\<lambda>n. (n, d)) [1..d])
                   [min_denominator..max_denominator])\<rparr>)"
  proof (rule denominator_loop_eq)
    fix n d
    assume "d \<in> set [min_denominator..max_denominator]" "n \<in> set [1..d]"
    then have "(n, d) \<in> set (enumeration_grid min_denominator max_denominator)"
      by (simp add: enumeration_grid_members)
    then show "\<exists>verdict.
        check_goldbach_analogue A (float_of A (of_int n / of_int d)) max_value = Inr verdict"
      by (rule assms)
  qed
  then show ?thesis
    by (simp add: search_run_def enumeration_grid_def)
qed

lemma find_eq:
  assumes "\<And>n d. (n, d) \<in> set (enumeration_grid min_denominator max_denominator) \<Longrightarrow>
      \<exists>verdict. check_goldbach_analogue A (float_of A (of_int n / of_int d)) max_value =
        Inr verdict"
  shows "find_rational_satisfying_goldbach A max_value max_denominator min_denominator =
    Inr (map lowest_terms (filter (passes A max_value)
           (enumeration_grid min_denominator max_denominator)))"
  by (simp add: find_rational_satisfying_goldbach_def search_run_eq [OF assms])

text \<open>
  On a base between 0 and 1 no power is beyond the double range. With an arithmetic
  whose powers of such a base never raise, and whose floats of the fractions in \<open>(0, 1]\<close>
  are between 0 and 1, the checker returns on every candidate of every grid.
\<close>

lemma grid_checks_return:
  assumes fl: "\<And>q. 0 < q \<Longrightarrow> q \<le> 1 \<Longrightarrow> 0 \<le> float_of A q \<and> float_of A q \<le> 1"
    and pw: "\<And>x k. 0 \<le> x \<Longrightarrow> x \<le> 1 \<Longrightarrow> pow_op A x k \<noteq> None"
    and c: "(n, d) \<in> set (enumeration_grid min_denominator max_denominator)"
  shows "\<exists>verdict. check_goldbach_analogue A (float_of A (of_int n / of_int d)) max_value =
        Inr verdict"
proof -
  from c have r: "1 \<le> n" "n \<le> d" by (simp_all add: enumeration_grid_members)
  then have q: "0 < (of_int n / of_int d :: rat)" "(of_int n / of_int d :: rat) \<le> 1"
    by simp_all
  from fl [OF q] have x: "0 \<le> float_of A (of_int n / of_int d)"
    "float_of A (of_int n / of_int d) \<le> 1" by simp_all
  show ?thesis
  proof (rule check_returns)
    from pw [OF x] show "pow_op A (float_of A (of_int n / of_int d)) 0 \<noteq> None" .
  next
    fix k e
    from pw [OF x] show "pow_op A (float_of A (of_int n / of_int d)) (Suc k) \<noteq> None" .
  qed
qed

lemma exact_checks_return:
  "\<exists>verdict. check_goldbach_analogue exact r max_value = Inr verdict"
  by (rule check_returns) (simp_all add: exact_def)

lemma passes_exact_below_four:
  assumes "max_value < 4"
  shows "passes exact max_value c"
proof -
  obtain n d where c: "c = (n, d)" by (cases c)
  from exact_checks_return [of "float_of exact (of_int n / of_int d)" max_value]
  obtain verdict where
    "check_goldbach_analogue exact (float_of exact (of_int n / of_int d)) max_value =
       Inr verdict" ..
  moreover from this assms have "verdict"
    by (auto simp: check_goldbach_analogue_def py_range_empty split: sum.splits)
  ultimately show ?thesis by (simp add: passes_def c)
qed

lemma unit_interval_safe_exact: "unit_interval_safe exact"
  by (simp add: unit_interval_safe_def exact_def)

lemma safe_checks_return:
  assumes "unit_interval_safe A"
    and "(n, d) \<in> set (enumeration_grid min_denominator max_denominator)"
  shows "\<exists>verdict. check_goldbach_analogue A (float_of A (of_int n / of_int d)) max_value =
        Inr verdict"
proof (rule grid_checks_return [OF _ _ assms(2)])
  fix q :: rat assume "0 < q" "q \<le> 1"
  with assms(1) show "0 \<le> float_of A q \<and> float_of A q \<le> 1"
    by (simp add: unit_interval_safe_def)
next
  fix x :: rat and k assume "0 \<le> x" "x \<le> 1"
  with assms(1) show "pow_op A x k \<noteq> None"
    by (simp add: unit_interval_safe_def)
qed

text \<open>A run that returns has had a verdict from the checker on every candidate.\<close>

lemma check_candidate_returned:
  assumes "0 < d" and "check_candidate A max_value d n st = Inr st'"
  shows "\<exists>verdict. check_goldbach_analogue A (float_of A (of_int n / of_int d)) max_value =
        Inr verdict"
  using assms
  by (auto simp: check_candidate_def Fraction_pos value_of_lowest_terms Let_def
      split: sum.splits)

lemma numerator_loop_returned:
  assumes "0 < d"
  shows "numerator_loop A max_value d ns st = Inr st' \<Longrightarrow> n \<in> set ns \<Longrightarrow>
    \<exists>verdict. check_goldbach_analogue A (float_of A (of_int n / of_int d)) max_value =
        Inr verdict"
proof (induction ns arbitrary: st)
  case Nil
  then show ?case by simp
next
  case (Cons m ns)
  from Cons.prems(1) obtain st1 where
    c: "check_candidate A max_value d m st = Inr st1" and
    l: "numerator_loop A max_value d ns st1 = Inr st'"
    by (auto split: sum.splits)
  show ?case
  proof (cases "n = m")
    case True
    with check_candidate_returned [OF assms c] show ?thesis by simp
  next
    case False
    with Cons.prems(2) have "n \<in> set ns" by simp
    from Cons.IH [OF l this] show ?thesis .
  qed
qed

lemma denominator_loop_returned:
  "denominator_loop A max_value ds st = Inr st' \<Longrightarrow> d \<in> set ds \<Longrightarrow> n \<in> set [1..d] \<Longrightarrow>
    \<exists>verdict. check_goldbach_analogue A (float_of A (of_int n / of_int d)) max_value =
        Inr verdict"
proof (induction ds arbitrary: st)
  case Nil
  then show ?case by simp
next
  case (Cons d' ds)
  from Cons.prems(1) obtain st1 where
    c: "numerator_loop A max_value d' [1..d'] st = Inr st1" and
    l: "denominator_loop A max_value ds st1 = Inr st'"
    by (auto split: sum.splits)
  show ?case
  proof (cases "d = d'")
    case True
    with Cons.prems(3) have "0 < d'" by simp
    from numerator_loop_returned [OF this c] Cons.prems(3) True show ?thesis by simp
  next
    case False
    with Cons.prems(2) have "d \<in> set ds" by simp
    from Cons.IH [OF l this Cons.prems(3)] show ?thesis .
  qed
qed

lemma search_run_returned:
  assumes "search_run A max_value max_denominator min_denominator = Inr st"
  shows "st = \<lparr>valid_rationals = map lowest_terms (filter (passes A max_value)
            (enumeration_grid min_denominator max_denominator)),
         total_checked = int (length (enumeration_grid min_denominator max_denominator)),
         checking_log = enumeration_grid min_denominator max_denominator\<rparr>"
proof -
  have "search_run A max_value max_denominator min_denominator =
    Inr \<lparr>valid_rationals = map lowest_terms (filter (passes A max_value)
            (enumeration_grid min_denominator max_denominator)),
         total_checked = int (length (enumeration_grid min_denominator max_denominator)),
         checking_log = enumeration_grid min_denominator max_denominator\<rparr>"
  proof (rule search_run_eq)
    fix n d
    assume "(n, d) \<in> set (enumeration_grid min_denominator max_denominator)"
    then have "d \<in> set [min_denominator..max_denominator]" "n \<in> set [1..d]"
      by (simp_all add: enumeration_grid_members)
    with assms show "\<exists>verdict.
        check_goldbach_analogue A (float_of A (of_int n / of_int d)) max_value = Inr verdict"
      unfolding search_run_def by (rule denominator_loop_returned)
  qed
  with assms show ?thesis by simp
qed

lemma search_run_safe:
  assumes "unit_interval_safe A"
  shows "search_run A max_value max_denominator min_denominator =
    Inr \<lparr>valid_rationals = map lowest_terms (filter (passes A max_value)
            (enumeration_grid min_denominator max_denominator)),
         total_checked = int (length (enumeration_grid min_denominator max_denominator)),
         checking_log = enumeration_grid min_denominator max_denominator\<rparr>"
  by (rule search_run_eq) (rule safe_checks_return [OF assms])

lemma find_returned:
  assumes "find_rational_satisfying_goldbach A max_value max_denominator min_denominator =
    Inr rs"
  shows "rs = map lowest_terms (filter (passes A max_value)
            (enumeration_grid min_denominator max_denominator))"
proof -
  from assms obtain st where
    s: "search_run A max_value max_denominator min_denominator = Inr st" and
    r: "rs = valid_rationals st"
    by (auto simp: find_rational_satisfying_goldbach_def split: sum.splits)
  from search_run_returned [OF s] r show ?thesis by simp
qed

lemma find_safe:
  assumes "unit_interval_safe A"
  shows "find_rational_satisfying_goldbach A max_value max_denominator min_denominator =
    Inr (map lowest_terms (filter (passes A max_value)
            (enumeration_grid min_denominator max_denominator)))"
  by (simp add: find_rational_satisfying_goldbach_def search_run_safe [OF assms])

text \<open>
  The only error that can end a run is the \<open>OverflowError\<close> of the checker.
\<close>

lemma check_candidate_error:
  assumes "0 < d" and "check_candidate A max_value d n st = Inl e"
  shows "e = OverflowError"
  using assms
  by (auto simp: check_candidate_def Fraction_pos Let_def split: sum.splits if_splits
      dest: check_error)

lemma numerator_loop_error:
  assumes "0 < d"
  shows "numerator_loop A max_value d ns st = Inl e \<Longrightarrow> e = OverflowError"
proof (induction ns arbitrary: st)
  case Nil
  then show ?case by simp
next
  case (Cons n ns)
  show ?case
  proof (cases "check_candidate A max_value d n st")
    case (Inl e')
    with Cons.prems have "e' = e" by simp
    with check_candidate_error [OF assms Inl] show ?thesis by simp
  next
    case (Inr st1)
    with Cons.prems have "numerator_loop A max_value d ns st1 = Inl e" by simp
    then show ?thesis by (rule Cons.IH)
  qed
qed

lemma denominator_loop_error:
  "denominator_loop A max_value ds st = Inl e \<Longrightarrow> e = OverflowError"
proof (induction ds arbitrary: st)
  case Nil
  then show ?case by simp
next
  case (Cons d ds)
  show ?case
  proof (cases "numerator_loop A max_value d [1..d] st")
    case (Inl e')
    with Cons.prems have e: "e' = e" by simp
    have "0 < d"
    proof (rule ccontr)
      assume "\<not> 0 < d"
      then have "[1..d] = []" by simp
      with Inl show False by simp
    qed
    from numerator_loop_error [OF this Inl] e show ?thesis by simp
  next
    case (Inr st1)
    with Cons.prems have "denominator_loop A max_value ds st1 = Inl e" by simp
    then show ?thesis by (rule Cons.IH)
  qed
qed

lemma find_error:
  "find_rational_satisfying_goldbach A max_value max_denominator min_denominator = Inl e \<Longrightarrow>
   e = OverflowError"
  by (auto simp: find_rational_satisfying_goldbach_def search_run_def split: sum.splits
      dest: denominator_loop_error)

section \<open>Candidates of the unit interval\<close>

text \<open>
  A base in \<open>(0, 1]\<close> fails for every \<open>max_value \<ge> 4\<close>, provided the arithmetic keeps the
  powers of such a base at most 1 and the sum of two numbers that are at most 1 at most 2.
  Exact arithmetic does, and so does rounding to nearest, since 1 and 2 are floats.
\<close>

lemma check_not_true_on_unit_interval:
  assumes pw: "\<forall>x k. 0 < x \<and> x \<le> 1 \<longrightarrow> (\<exists>y. pow_op A x k = Some y \<and> y \<le> 1)"
    and ad: "\<forall>a b. a \<le> 1 \<and> b \<le> 1 \<longrightarrow> add_op A a b \<le> 2"
    and x: "0 < x" "x \<le> 1"
    and mv: "4 \<le> max_value"
  shows "check_goldbach_analogue A x max_value = Inr False"
proof -
  from pw x have p: "\<exists>y. pow_op A x k = Some y \<and> y \<le> 1" for k by blast
  have "pow_op A x 0 \<noteq> None" using p [of 0] by auto
  moreover have "pow_op A x (Suc k) \<noteq> None" for k using p [of "Suc k"] by auto
  ultimately have "\<exists>xs. generate_semidomain_elements A x (of_int max_value) 20 = Inr xs"
    by (intro generate_returns)
  then obtain elements where
    g: "generate_semidomain_elements A x (of_int max_value) 20 = Inr elements" ..
  have le1: "y \<le> 1" if "y \<in> set elements" for y
  proof -
    from generate_Inr [OF g] obtain result where
      l: "generate_loop A x (of_int max_value) [0..<nat 20] {} = Inr result" and
      s: "set elements = result"
      by blast
    from that s have "y \<in> result" by simp
    from generate_loop_members [OF l this] obtain k where "pow_op A x k = Some y" by auto
    with p [of k] show ?thesis by auto
  qed
  have "\<not> (\<forall>e. even e \<and> 4 \<le> e \<and> e \<le> max_value \<longrightarrow>
     of_int e \<in> {add_op A a b | a b. a \<in> set elements \<and> b \<in> set elements})"
  proof
    assume "\<forall>e. even e \<and> 4 \<le> e \<and> e \<le> max_value \<longrightarrow>
     of_int e \<in> {add_op A a b | a b. a \<in> set elements \<and> b \<in> set elements}"
    then have "even (4::int) \<and> (4::int) \<le> 4 \<and> 4 \<le> max_value \<longrightarrow>
     of_int 4 \<in> {add_op A a b | a b. a \<in> set elements \<and> b \<in> set elements}"
      by (rule spec)
    with mv obtain a b where
      a: "a \<in> set elements" and b: "b \<in> set elements" and s: "(4::rat) = add_op A a b"
      by auto
    from ad le1 [OF a] le1 [OF b] have "add_op A a b \<le> 2" by blast
    with s show False by simp
  qed
  with check_Inr [OF g] show ?thesis by simp
qed

lemma grid_candidate_fails:
  assumes fl: "\<forall>q. 0 < q \<and> q \<le> 1 \<longrightarrow> 0 < float_of A q \<and> float_of A q \<le> 1"
    and pw: "\<forall>x k. 0 < x \<and> x \<le> 1 \<longrightarrow> (\<exists>y. pow_op A x k = Some y \<and> y \<le> 1)"
    and ad: "\<forall>a b. a \<le> 1 \<and> b \<le> 1 \<longrightarrow> add_op A a b \<le> 2"
    and mv: "4 \<le> max_value"
    and c: "(n, d) \<in> set (enumeration_grid min_denominator max_denominator)"
  shows "check_goldbach_analogue A (float_of A (of_int n / of_int d)) max_value = Inr False"
proof -
  from c have r: "1 \<le> n" "n \<le> d" by (simp_all add: enumeration_grid_members)
  then have q: "0 < (of_int n / of_int d :: rat)" "(of_int n / of_int d :: rat) \<le> 1"
    by simp_all
  with fl have "0 < float_of A (of_int n / of_int d)"
    "float_of A (of_int n / of_int d) \<le> 1" by blast+
  from check_not_true_on_unit_interval [OF pw ad this mv]
  show ?thesis .
qed

lemma search_empty:
  assumes fl: "\<forall>q. 0 < q \<and> q \<le> 1 \<longrightarrow> 0 < float_of A q \<and> float_of A q \<le> 1"
    and pw: "\<forall>x k. 0 < x \<and> x \<le> 1 \<longrightarrow> (\<exists>y. pow_op A x k = Some y \<and> y \<le> 1)"
    and ad: "\<forall>a b. a \<le> 1 \<and> b \<le> 1 \<longrightarrow> add_op A a b \<le> 2"
    and mv: "4 \<le> max_value"
  shows "search_run A max_value max_denominator min_denominator =
    Inr \<lparr>valid_rationals = [],
         total_checked = int (length (enumeration_grid min_denominator max_denominator)),
         checking_log = enumeration_grid min_denominator max_denominator\<rparr>"
proof -
  have f: "check_goldbach_analogue A (float_of A (of_int n / of_int d)) max_value = Inr False"
    if "(n, d) \<in> set (enumeration_grid min_denominator max_denominator)" for n d
    using fl pw ad mv that by (rule grid_candidate_fails)
  have "\<not> passes A max_value c"
    if "c \<in> set (enumeration_grid min_denominator max_denominator)" for c
  proof -
    obtain n d where c: "c = (n, d)" by (cases c)
    with that f [of n d] show ?thesis
      by (simp add: passes_def)
  qed
  then have e: "filter (passes A max_value)
      (enumeration_grid min_denominator max_denominator) = []"
    unfolding filter_empty_conv by blast
  have "search_run A max_value max_denominator min_denominator =
    Inr \<lparr>valid_rationals = map lowest_terms (filter (passes A max_value)
            (enumeration_grid min_denominator max_denominator)),
         total_checked = int (length (enumeration_grid min_denominator max_denominator)),
         checking_log = enumeration_grid min_denominator max_denominator\<rparr>"
  proof (rule search_run_eq)
    fix n d assume "(n, d) \<in> set (enumeration_grid min_denominator max_denominator)"
    from f [OF this] show "\<exists>verdict.
      check_goldbach_analogue A (float_of A (of_int n / of_int d)) max_value = Inr verdict"
      by blast
  qed
  then show ?thesis by (simp only: e list.map)
qed

lemma exact_unit_interval:
  "\<forall>q. 0 < q \<and> q \<le> 1 \<longrightarrow> 0 < float_of exact q \<and> float_of exact q \<le> 1"
  "\<forall>x k. 0 < x \<and> x \<le> 1 \<longrightarrow> (\<exists>y. pow_op exact x k = Some y \<and> y \<le> 1)"
  "\<forall>a b. a \<le> 1 \<and> b \<le> 1 \<longrightarrow> add_op exact a b \<le> 2"
  by (simp_all add: exact_def power_le_one)

lemma exact_grid_fails:
  assumes "4 \<le> max_value"
    and "(n, d) \<in> set (enumeration_grid min_denominator max_denominator)"
  shows "\<not> passes exact max_value (n, d)"
  using grid_candidate_fails [OF exact_unit_interval assms]
  by (simp add: passes_def)

section \<open>The results of the search\<close>

lemma grid_1_4_lowest_terms:
  "map lowest_terms (enumeration_grid 1 4) =
    [\<lparr>numerator = 1, denominator = 1\<rparr>, \<lparr>numerator = 1, denominator = 2\<rparr>,
     \<lparr>numerator = 1, denominator = 1\<rparr>, \<lparr>numerator = 1, denominator = 3\<rparr>,
     \<lparr>numerator = 2, denominator = 3\<rparr>, \<lparr>numerator = 1, denominator = 1\<rparr>,
     \<lparr>numerator = 1, denominator = 4\<rparr>, \<lparr>numerator = 1, denominator = 2\<rparr>,
     \<lparr>numerator = 3, denominator = 4\<rparr>, \<lparr>numerator = 1, denominator = 1\<rparr>]"
  by code_simp

lemma grid_1_2: "enumeration_grid 1 2 = [(1, 1), (1, 2), (2, 2)]"
  by code_simp

lemma grid_1_2_lowest_terms:
  "map lowest_terms (enumeration_grid 1 2) =
    [\<lparr>numerator = 1, denominator = 1\<rparr>, \<lparr>numerator = 1, denominator = 2\<rparr>,
     \<lparr>numerator = 1, denominator = 1\<rparr>]"
  by code_simp

text \<open>
  Claim C1, as the specification states it: for every qualifying candidate the driver
  appends the unreduced pair \<open>(numerator, denominator)\<close>, so that \<open>1/2\<close> and \<open>2/4\<close> appear
  under different representations. The code appends \<open>Fraction(numerator, denominator)\<close>,
  which is stored in lowest terms. With \<open>max_value = 3\<close> every candidate qualifies; the
  candidate \<open>2/4\<close> qualifies and is appended as \<open>1/2\<close>, and the pair \<open>(2, 4)\<close> is not in the
  result.
\<close>

theorem unreduced_pair_counterexample:
  "passes exact 3 (2, 4) \<and>
   find_rational_satisfying_goldbach exact 3 4 1 =
     Inr [\<lparr>numerator = 1, denominator = 1\<rparr>, \<lparr>numerator = 1, denominator = 2\<rparr>,
          \<lparr>numerator = 1, denominator = 1\<rparr>, \<lparr>numerator = 1, denominator = 3\<rparr>,
          \<lparr>numerator = 2, denominator = 3\<rparr>, \<lparr>numerator = 1, denominator = 1\<rparr>,
          \<lparr>numerator = 1, denominator = 4\<rparr>, \<lparr>numerator = 1, denominator = 2\<rparr>,
          \<lparr>numerator = 3, denominator = 4\<rparr>, \<lparr>numerator = 1, denominator = 1\<rparr>] \<and>
   \<lparr>numerator = 2, denominator = 4\<rparr> \<notin>
     set [\<lparr>numerator = 1, denominator = 1\<rparr>, \<lparr>numerator = 1, denominator = 2\<rparr>,
          \<lparr>numerator = 1, denominator = 1\<rparr>, \<lparr>numerator = 1, denominator = 3\<rparr>,
          \<lparr>numerator = 2, denominator = 3\<rparr>, \<lparr>numerator = 1, denominator = 1\<rparr>,
          \<lparr>numerator = 1, denominator = 4\<rparr>, \<lparr>numerator = 1, denominator = 2\<rparr>,
          \<lparr>numerator = 3, denominator = 4\<rparr>, \<lparr>numerator = 1, denominator = 1\<rparr>]"
proof (intro conjI)
  show "passes exact 3 (2, 4)" by (simp add: passes_exact_below_four)
  have "filter (passes exact 3) (enumeration_grid 1 4) = enumeration_grid 1 4"
    by (simp add: passes_exact_below_four)
  then show "find_rational_satisfying_goldbach exact 3 4 1 =
     Inr [\<lparr>numerator = 1, denominator = 1\<rparr>, \<lparr>numerator = 1, denominator = 2\<rparr>,
          \<lparr>numerator = 1, denominator = 1\<rparr>, \<lparr>numerator = 1, denominator = 3\<rparr>,
          \<lparr>numerator = 2, denominator = 3\<rparr>, \<lparr>numerator = 1, denominator = 1\<rparr>,
          \<lparr>numerator = 1, denominator = 4\<rparr>, \<lparr>numerator = 1, denominator = 2\<rparr>,
          \<lparr>numerator = 3, denominator = 4\<rparr>, \<lparr>numerator = 1, denominator = 1\<rparr>]"
    by (simp only: find_safe [OF unit_interval_safe_exact] grid_1_4_lowest_terms)
  show "\<lparr>numerator = 2, denominator = 4\<rparr> \<notin>
     set [\<lparr>numerator = 1, denominator = 1\<rparr>, \<lparr>numerator = 1, denominator = 2\<rparr>,
          \<lparr>numerator = 1, denominator = 1\<rparr>, \<lparr>numerator = 1, denominator = 3\<rparr>,
          \<lparr>numerator = 2, denominator = 3\<rparr>, \<lparr>numerator = 1, denominator = 1\<rparr>,
          \<lparr>numerator = 1, denominator = 4\<rparr>, \<lparr>numerator = 1, denominator = 2\<rparr>,
          \<lparr>numerator = 3, denominator = 4\<rparr>, \<lparr>numerator = 1, denominator = 1\<rparr>]"
    by simp
qed

text \<open>
  Claim C1, amended. For every candidate of the grid that qualifies the driver appends,
  in the order of the grid, the fraction in lowest terms: the pair divided by its
  greatest common divisor. Distinct pairs of the grid that denote the same value and pass
  are each appended, so the result may hold the same reduced pair several times: \<open>1/2\<close>
  and \<open>2/4\<close> are both appended as \<open>(1, 2)\<close>. This is the list of every run that returns,
  and the run does return with an arithmetic that is safe on the unit interval, as that
  of \<open>float\<close> is; no run raises anything but the \<open>OverflowError\<close> of the checker.
\<close>

theorem find_appends_lowest_terms:
  "(\<forall>rs. find_rational_satisfying_goldbach A max_value max_denominator min_denominator =
            Inr rs \<longrightarrow>
      rs = map lowest_terms (filter (passes A max_value)
             (enumeration_grid min_denominator max_denominator))) \<and>
   (unit_interval_safe A \<longrightarrow>
      find_rational_satisfying_goldbach A max_value max_denominator min_denominator =
        Inr (map lowest_terms (filter (passes A max_value)
               (enumeration_grid min_denominator max_denominator)))) \<and>
   (\<forall>e. find_rational_satisfying_goldbach A max_value max_denominator min_denominator =
           Inl e \<longrightarrow> e = OverflowError) \<and>
   lowest_terms (1, 2) = \<lparr>numerator = 1, denominator = 2\<rparr> \<and>
   lowest_terms (2, 4) = \<lparr>numerator = 1, denominator = 2\<rparr>"
proof (intro conjI allI impI)
  fix rs
  assume "find_rational_satisfying_goldbach A max_value max_denominator min_denominator =
            Inr rs"
  then show "rs = map lowest_terms (filter (passes A max_value)
             (enumeration_grid min_denominator max_denominator))"
    by (rule find_returned)
next
  assume "unit_interval_safe A"
  then show "find_rational_satisfying_goldbach A max_value max_denominator min_denominator =
        Inr (map lowest_terms (filter (passes A max_value)
               (enumeration_grid min_denominator max_denominator)))"
    by (rule find_safe)
next
  fix e
  assume "find_rational_satisfying_goldbach A max_value max_denominator min_denominator =
           Inl e"
  then show "e = OverflowError" by (rule find_error)
next
  show "lowest_terms (1, 2) = \<lparr>numerator = 1, denominator = 2\<rparr>"
    by code_simp
  show "lowest_terms (2, 4) = \<lparr>numerator = 1, denominator = 2\<rparr>"
    by code_simp
qed

theorem find_appends_lowest_terms_witness:
  "unit_interval_safe exact \<and>
   find_rational_satisfying_goldbach exact 3 2 1 =
     Inr [\<lparr>numerator = 1, denominator = 1\<rparr>, \<lparr>numerator = 1, denominator = 2\<rparr>,
          \<lparr>numerator = 1, denominator = 1\<rparr>]"
proof -
  have f: "filter (passes exact 3) (enumeration_grid 1 2) = enumeration_grid 1 2"
    by (simp add: passes_exact_below_four)
  from find_appends_lowest_terms [of exact 3 2 1]
  have "unit_interval_safe exact \<longrightarrow>
      find_rational_satisfying_goldbach exact 3 2 1 =
        Inr (map lowest_terms (filter (passes exact 3) (enumeration_grid 1 2)))"
    by blast
  with unit_interval_safe_exact
  have "find_rational_satisfying_goldbach exact 3 2 1 =
        Inr (map lowest_terms (filter (passes exact 3) (enumeration_grid 1 2)))"
    by (rule rev_mp)
  with unit_interval_safe_exact show ?thesis
    by (simp only: f grid_1_2_lowest_terms simp_thms)
qed

text \<open>
  Claim C5. For \<open>max_value = 4\<close>, \<open>max_denominator = 2\<close>, \<open>min_denominator = 1\<close> the driver
  visits the candidates in the order \<open>(1/1), (1/2), (2/2)\<close>, denominators ascending and, for
  each, numerators ascending from 1; the result list holds the fractions of those that
  pass, in that same order. This is the state of every run that returns, and the run
  does return with an arithmetic that is safe on the unit interval, as that of \<open>float\<close>
  is.
\<close>

theorem search_4_2_1_order:
  "(\<forall>st. search_run A 4 2 1 = Inr st \<longrightarrow>
      checking_log st = [(1, 1), (1, 2), (2, 2)] \<and> total_checked st = 3 \<and>
      valid_rationals st =
        map lowest_terms (filter (passes A 4) [(1, 1), (1, 2), (2, 2)]) \<and>
      find_rational_satisfying_goldbach A 4 2 1 = Inr (valid_rationals st)) \<and>
   (unit_interval_safe A \<longrightarrow>
      search_run A 4 2 1 =
        Inr \<lparr>valid_rationals =
               map lowest_terms (filter (passes A 4) [(1, 1), (1, 2), (2, 2)]),
             total_checked = 3,
             checking_log = [(1, 1), (1, 2), (2, 2)]\<rparr>)"
proof (intro conjI allI impI)
  fix st assume s: "search_run A 4 2 1 = Inr st"
  from search_run_returned [OF s] have st: "st =
      \<lparr>valid_rationals = map lowest_terms (filter (passes A 4) [(1, 1), (1, 2), (2, 2)]),
       total_checked = 3, checking_log = [(1, 1), (1, 2), (2, 2)]\<rparr>"
    by (simp add: grid_1_2)
  from st show "checking_log st = [(1, 1), (1, 2), (2, 2)]" by simp
  from st show "total_checked st = 3" by simp
  from st show "valid_rationals st =
        map lowest_terms (filter (passes A 4) [(1, 1), (1, 2), (2, 2)])" by simp
  from s show "find_rational_satisfying_goldbach A 4 2 1 = Inr (valid_rationals st)"
    by (simp add: find_rational_satisfying_goldbach_def)
next
  assume "unit_interval_safe A"
  from search_run_safe [OF this, of 4 2 1]
  show "search_run A 4 2 1 =
        Inr \<lparr>valid_rationals =
               map lowest_terms (filter (passes A 4) [(1, 1), (1, 2), (2, 2)]),
             total_checked = 3,
             checking_log = [(1, 1), (1, 2), (2, 2)]\<rparr>"
    by (simp add: grid_1_2)
qed

theorem search_4_2_1_order_witness:
  "unit_interval_safe exact \<and>
   search_run exact 4 2 1 =
     Inr \<lparr>valid_rationals = [], total_checked = 3,
          checking_log = [(1, 1), (1, 2), (2, 2)]\<rparr>"
proof -
  have "\<not> passes exact 4 c" if "c \<in> set (enumeration_grid 1 2)" for c
  proof -
    obtain n d where "c = (n, d)" by (cases c)
    with that exact_grid_fails [of 4 n d 1 2] show ?thesis by simp
  qed
  then have "filter (passes exact 4) (enumeration_grid 1 2) = []"
    unfolding filter_empty_conv by blast
  then have p: "filter (passes exact 4) [(1, 1), (1, 2), (2, 2)] = []"
    by (simp only: grid_1_2)
  from search_4_2_1_order [of exact]
  have "unit_interval_safe exact \<longrightarrow>
      search_run exact 4 2 1 =
        Inr \<lparr>valid_rationals =
               map lowest_terms (filter (passes exact 4) [(1, 1), (1, 2), (2, 2)]),
             total_checked = 3,
             checking_log = [(1, 1), (1, 2), (2, 2)]\<rparr>"
    by (rule conjunct2)
  with unit_interval_safe_exact
  have "search_run exact 4 2 1 =
        Inr \<lparr>valid_rationals =
               map lowest_terms (filter (passes exact 4) [(1, 1), (1, 2), (2, 2)]),
             total_checked = 3,
             checking_log = [(1, 1), (1, 2), (2, 2)]\<rparr>"
    by (rule rev_mp)
  then have "search_run exact 4 2 1 =
     Inr \<lparr>valid_rationals = [], total_checked = 3,
          checking_log = [(1, 1), (1, 2), (2, 2)]\<rparr>"
    by (simp only: p list.map)
  with unit_interval_safe_exact show ?thesis by (rule conjI)
qed

lemma enumeration_grid_snoc:
  "min_denominator \<le> D + 1 \<Longrightarrow>
   enumeration_grid min_denominator (D + 1) =
   enumeration_grid min_denominator D @ map (\<lambda>n. (n, D + 1)) [1..D + 1]"
  by (simp add: enumeration_grid_def upto_rec2 [of min_denominator "D + 1"])

lemma length_enumeration_grid:
  "0 \<le> D \<Longrightarrow> int (length (enumeration_grid 1 D)) = D * (D + 1) div 2"
proof (induction D rule: int_ge_induct)
  case base
  show ?case by (simp add: enumeration_grid_def)
next
  case (step D)
  from step.hyps have "int (length (enumeration_grid 1 (D + 1))) =
      int (length (enumeration_grid 1 D)) + (D + 1)"
    by (simp add: enumeration_grid_snoc)
  also have "\<dots> = D * (D + 1) div 2 + (D + 1)"
    by (simp only: step.IH)
  also have "\<dots> = (D + 1) * (D + 1 + 1) div 2"
  proof -
    have "even (D * (D + 1))" by simp
    then obtain k where k: "D * (D + 1) = 2 * k" by (elim evenE)
    have "(D + 1) * (D + 1 + 1) = 2 * (k + (D + 1))"
      using k by (simp add: algebra_simps)
    with k show ?thesis by simp
  qed
  finally show ?case .
qed

text \<open>
  Claim C6. With \<open>min_denominator = 1\<close> and \<open>max_denominator = D\<close>, for every \<open>D \<ge> 0\<close> and
  so for every \<open>D \<ge> 1\<close>, a run that returns has \<open>total_checked\<close> equal to
  \<open>D (D + 1) / 2\<close>, whatever \<open>max_value\<close>; and the run does return with an arithmetic that
  is safe on the unit interval, as that of \<open>float\<close> is.
\<close>

theorem total_checked_triangular:
  assumes "0 \<le> D"
  shows "(\<forall>st. search_run A max_value D 1 = Inr st \<longrightarrow>
            total_checked st = D * (D + 1) div 2) \<and>
         (unit_interval_safe A \<longrightarrow>
            (\<exists>st. search_run A max_value D 1 = Inr st \<and>
                  total_checked st = D * (D + 1) div 2))"
proof (intro conjI allI impI)
  fix st assume "search_run A max_value D 1 = Inr st"
  from search_run_returned [OF this] assms
  show "total_checked st = D * (D + 1) div 2"
    by (simp add: length_enumeration_grid)
next
  assume "unit_interval_safe A"
  from search_run_safe [OF this, of max_value D 1] assms
  show "\<exists>st. search_run A max_value D 1 = Inr st \<and> total_checked st = D * (D + 1) div 2"
    by (simp add: length_enumeration_grid)
qed

theorem total_checked_triangular_witness:
  "(0::int) \<le> 3 \<and> unit_interval_safe exact \<and>
   (\<exists>st. search_run exact 4 3 1 = Inr st \<and> total_checked st = 6)"
proof -
  have d: "(0::int) \<le> 3" by simp
  from total_checked_triangular [OF d, of exact 4]
  have "unit_interval_safe exact \<longrightarrow>
      (\<exists>st. search_run exact 4 3 1 = Inr st \<and> total_checked st = 3 * (3 + 1) div 2)"
    by (rule conjunct2)
  with unit_interval_safe_exact
  have "\<exists>st. search_run exact 4 3 1 = Inr st \<and> total_checked st = 3 * (3 + 1) div 2"
    by (rule rev_mp)
  with d unit_interval_safe_exact show ?thesis by simp
qed

text \<open>
  Claim C2. With the default parameters \<open>max_value = 1000\<close>, \<open>max_denominator = 10\<close>,
  \<open>min_denominator = 1\<close> the search returns the empty list, and every candidate it visits
  lies in \<open>(0, 1]\<close>. The arithmetic is any in which the float of a rational in \<open>(0, 1]\<close> is
  in \<open>(0, 1]\<close>, the powers of a base in \<open>(0, 1]\<close> do not raise and are at most 1, and the
  sum of two numbers that are at most 1 is at most 2.
\<close>

theorem default_search_is_empty:
  assumes "\<And>q. 0 < q \<Longrightarrow> q \<le> 1 \<Longrightarrow> 0 < float_of A q \<and> float_of A q \<le> 1"
    and "\<And>x k. 0 < x \<Longrightarrow> x \<le> 1 \<Longrightarrow> \<exists>y. pow_op A x k = Some y \<and> y \<le> 1"
    and "\<And>a b. a \<le> 1 \<Longrightarrow> b \<le> 1 \<Longrightarrow> add_op A a b \<le> 2"
  shows "find_rational_satisfying_goldbach A 1000 10 1 = Inr [] \<and>
    (\<exists>st. search_run A 1000 10 1 = Inr st \<and>
      (\<forall>(n, d)\<in>set (checking_log st).
          0 < (of_int n / of_int d :: rat) \<and> (of_int n / of_int d :: rat) \<le> 1))"
proof (intro conjI)
  have m: "(4::int) \<le> 1000" by simp
  from assms(1) have fl:
    "\<forall>q. 0 < q \<and> q \<le> 1 \<longrightarrow> 0 < float_of A q \<and> float_of A q \<le> 1" by blast
  from assms(2) have pw:
    "\<forall>x k. 0 < x \<and> x \<le> 1 \<longrightarrow> (\<exists>y. pow_op A x k = Some y \<and> y \<le> 1)" by blast
  from assms(3) have ad: "\<forall>a b. a \<le> 1 \<and> b \<le> 1 \<longrightarrow> add_op A a b \<le> 2" by blast
  note s = search_empty [OF fl pw ad m, of 10 1]
  from s show "find_rational_satisfying_goldbach A 1000 10 1 = Inr []"
    by (simp add: find_rational_satisfying_goldbach_def)
  have "0 < (of_int n / of_int d :: rat) \<and> (of_int n / of_int d :: rat) \<le> 1"
    if "(n, d) \<in> set (enumeration_grid 1 10)" for n d
  proof -
    from that have "1 \<le> n" "n \<le> d" by (simp_all add: enumeration_grid_members)
    then show ?thesis by simp
  qed
  with s show "\<exists>st. search_run A 1000 10 1 = Inr st \<and>
      (\<forall>(n, d)\<in>set (checking_log st).
          0 < (of_int n / of_int d :: rat) \<and> (of_int n / of_int d :: rat) \<le> 1)"
    by auto
qed

theorem default_search_is_empty_witness:
  "find_rational_satisfying_goldbach exact 1000 10 1 = Inr []"
proof (rule default_search_is_empty [THEN conjunct1])
  fix q :: rat assume "0 < q" "q \<le> 1"
  then show "0 < float_of exact q \<and> float_of exact q \<le> 1" by (simp add: exact_def)
next
  fix x :: rat and k :: nat assume "0 < x" "x \<le> 1"
  then show "\<exists>y. pow_op exact x k = Some y \<and> y \<le> 1" by (simp add: exact_def power_le_one)
next
  fix a b :: rat assume "a \<le> 1" "b \<le> 1"
  then show "add_op exact a b \<le> 2" by (simp add: exact_def)
qed

end
